theory Spec2Isabelle
  imports Complex_Main
begin

unbundle bit_operations_syntax

section \<open>Device arrays, kernel launches and errors\<close>

text \<open>
  The kernels of \<^verbatim>\<open>cudautils.py\<close> work on one-dimensional device arrays. A device
  array is a list; its \<^verbatim>\<open>size\<close> is the length of the list. An array obtained from
  \<^verbatim>\<open>cuda.device_array\<close> is not initialised: its cells hold whatever the memory
  held, which the model takes as a parameter (a function from the cell index to
  its content), so that every result holds for all initial contents.

  The mask word width \<^verbatim>\<open>mask_bitsize\<close> is imported from \<^verbatim>\<open>utils\<close>; it is the
  parameter \<open>W\<close> of every definition that reads or writes a mask. A mask word
  is the natural number of its \<open>W\<close> bits. Slot numbers are unsigned 64-bit
  integers, natural numbers here: no column is long enough for the count to wrap.

  A launch \<^verbatim>\<open>kernel.forall(n)\<close> starts at least \<open>n\<close> threads; the model runs the
  threads \<open>0, ..., n + pad - 1\<close> one after the other, for an arbitrary number
  \<open>pad\<close> of surplus threads. A thread of such a kernel writes one cell at most,
  and no two threads write the same cell, so the order of the threads is
  immaterial.
\<close>

text \<open>The exceptions the host functions raise.\<close>

datatype exn = ValueError | NotImplementedError | AssertionError

definition device_array :: "(nat \<Rightarrow> 'a) \<Rightarrow> nat \<Rightarrow> 'a list" where
  "device_array uninit n = map uninit [0..<n]"

definition forall_launch :: "nat \<Rightarrow> nat \<Rightarrow> (nat \<Rightarrow> 's \<Rightarrow> 's) \<Rightarrow> 's \<Rightarrow> 's" where
  "forall_launch ntasks pad kern s = fold kern [0..<ntasks + pad] s"

section \<open>Mask utilities\<close>

text \<open>
  \<^verbatim>\<open>gpu_set_mask_from_stride\<close>: thread \<open>tid\<close> builds word \<open>tid\<close> of the mask bit by
  bit; \<open>set_mask_word\<close> is the loop over \<^verbatim>\<open>shift\<close>.
\<close>

definition set_mask_word :: "nat \<Rightarrow> int \<Rightarrow> nat \<Rightarrow> nat" where
  "set_mask_word W stride base =
     fold (\<lambda>shift val.
             let idx = base + shift;
                 bitv = (int idx mod stride = 0)
             in val OR push_bit shift (of_bool bitv))
          [0..<W] 0"

definition gpu_set_mask_from_stride :: "nat \<Rightarrow> int \<Rightarrow> nat \<Rightarrow> nat list \<Rightarrow> nat list" where
  "gpu_set_mask_from_stride W stride tid msk =
     (if tid < length msk
      then msk[tid := set_mask_word W stride (tid * W)]
      else msk)"

definition set_mask_from_stride :: "nat \<Rightarrow> nat \<Rightarrow> nat list \<Rightarrow> int \<Rightarrow> nat list" where
  "set_mask_from_stride W pad msk stride =
     (let taskct = length msk
      in forall_launch taskct pad (gpu_set_mask_from_stride W stride) msk)"

text \<open>
  \<^verbatim>\<open>gpu_mask_get\<close> reads bit \<open>pos\<close> of the mask, as 0 or 1. The device function has
  no bounds check: a read beyond the mask has no defined result, and the
  theorems on masks take a mask that covers the positions read
  (\<open>pos < W * length mask\<close>).
\<close>

definition gpu_mask_get :: "nat \<Rightarrow> nat list \<Rightarrow> nat \<Rightarrow> nat" where
  "gpu_mask_get W msk pos = drop_bit (pos mod W) (msk ! (pos div W)) AND 1"

section \<open>Fill NA\<close>

definition gpu_fill_masked :: "nat \<Rightarrow> 'a \<Rightarrow> nat list \<Rightarrow> nat \<Rightarrow> 'a list \<Rightarrow> 'a list" where
  "gpu_fill_masked W val validity tid out =
     (if tid < length out
      then (let valid = gpu_mask_get W validity tid
            in if valid = 0 then out[tid := val] else out)
      else out)"

text \<open>
  \<^verbatim>\<open>fillna\<close>: the output is a fresh array that receives a copy of the data
  (\<^verbatim>\<open>copy_to_device\<close> overwrites every cell), then the kernel runs over it.
\<close>

definition fillna :: "nat \<Rightarrow> nat \<Rightarrow> 'a list \<Rightarrow> nat list \<Rightarrow> 'a \<Rightarrow> 'a list" where
  "fillna W pad data msk val =
     (let out = data
      in forall_launch (length data) pad (gpu_fill_masked W val msk) out)"

section \<open>Compaction\<close>

text \<open>
  \<^verbatim>\<open>gpu_prefixsum\<close> is an in-place exclusive prefix sum: it returns the scanned
  array and the final accumulator.
\<close>

fun gpu_prefixsum :: "nat list \<Rightarrow> nat \<Rightarrow> nat list \<times> nat" where
  "gpu_prefixsum [] acc = ([], acc)"
| "gpu_prefixsum (tmp # data) acc =
     (case gpu_prefixsum data (acc + tmp) of (data', acc') \<Rightarrow> (acc # data', acc'))"

text \<open>
  \<^verbatim>\<open>gpu_mask_assign_slot\<close> runs as one block of one warp and has no barrier: its
  threads run in lockstep, so every statement is finished by all threads before
  the next one starts. The state of the block is the shared array \<^verbatim>\<open>sm_prefix\<close>
  (33 cells, not initialised), the running \<^verbatim>\<open>offset\<close> (the same in every thread
  after the read of cell 32) and the output array \<^verbatim>\<open>slots\<close>.
  \<open>assign_slot_chunk\<close> is one iteration of the loop over \<^verbatim>\<open>base\<close>: every thread
  loads its bit, thread 0 scans the first 32 cells and stores the total in cell
  32, every thread stores its slot. \<open>n\<close> is \<^verbatim>\<open>slots.size\<close>.
\<close>

record slot_state =
  s_sm_prefix :: "nat list"
  s_offset :: nat
  s_slots :: "nat list"

definition assign_slot_chunk :: "nat \<Rightarrow> nat \<Rightarrow> nat list \<Rightarrow> nat \<Rightarrow> nat \<Rightarrow> slot_state \<Rightarrow> slot_state" where
  "assign_slot_chunk W blksz msk n base st =
     (let sm_loaded =
            fold (\<lambda>tid sm.
                    let i = base + tid;
                        sm' = sm[tid := 0]
                    in if i < n then sm'[tid := gpu_mask_get W msk i] else sm')
                 [0..<blksz] (s_sm_prefix st);
          (scanned, acc) = gpu_prefixsum (take 32 sm_loaded) (s_offset st);
          sm_scanned = (scanned @ drop 32 sm_loaded)[32 := acc];
          slots' =
            fold (\<lambda>tid sl.
                    let i = base + tid
                    in if i < n then sl[i := sm_scanned ! tid] else sl)
                 [0..<blksz] (s_slots st)
      in \<lparr>s_sm_prefix = sm_scanned, s_offset = sm_scanned ! 32, s_slots = slots'\<rparr>)"

text \<open>
  The loop \<^verbatim>\<open>for base in range(0, slots.size, blksz)\<close>. A block has at least one
  thread; the guard \<open>0 < blksz\<close> makes the recursion total for the width 0 that
  no launch can have.
\<close>

function assign_slot_loop :: "nat \<Rightarrow> nat \<Rightarrow> nat list \<Rightarrow> nat \<Rightarrow> nat \<Rightarrow> slot_state \<Rightarrow> slot_state" where
  "assign_slot_loop W blksz msk n base st =
     (if base < n \<and> 0 < blksz
      then assign_slot_loop W blksz msk n (base + blksz) (assign_slot_chunk W blksz msk n base st)
      else st)"
  by pat_completeness auto
termination
  by (relation "measure (\<lambda>(W, blksz, msk, n, base, st). n - base)") auto

definition gpu_mask_assign_slot :: "nat \<Rightarrow> nat \<Rightarrow> (nat \<Rightarrow> nat) \<Rightarrow> nat list \<Rightarrow> nat list \<Rightarrow> nat list" where
  "gpu_mask_assign_slot W blksz shared0 msk slots0 =
     s_slots (assign_slot_loop W blksz msk (length slots0) 0
              \<lparr>s_sm_prefix = device_array shared0 33, s_offset = 0, s_slots = slots0\<rparr>)"

declare assign_slot_loop.simps [simp del]

text \<open>
  \<^verbatim>\<open>gpu_copy_to_dense\<close>: the gather. A write beyond the end of \<^verbatim>\<open>out\<close> leaves the
  list as it is; the host function below never lets a slot number reach it
  without having sized or checked \<^verbatim>\<open>out\<close>.
\<close>

definition gpu_copy_to_dense :: "nat \<Rightarrow> 'a list \<Rightarrow> nat list \<Rightarrow> nat list \<Rightarrow> nat \<Rightarrow> 'a list \<Rightarrow> 'a list" where
  "gpu_copy_to_dense W data msk slots tid out =
     (if tid < length data \<and> gpu_mask_get W msk tid \<noteq> 0
      then (let idx = slots ! tid in out[idx := data ! tid])
      else out)"

text \<open>
  \<^verbatim>\<open>copy_to_dense\<close>: the host function. \<^verbatim>\<open>slots[-1:].copy_to_host() + 1\<close> is
  the last slot number plus one; for an empty column the slice is empty, a case
  the model leaves out (every theorem about \<open>copy_to_dense\<close> is about a column
  with at least one element). The kernel \<^verbatim>\<open>gpu_mask_assign_slot\<close> is launched
  with one block of 32 threads.
\<close>

definition copy_to_dense ::
  "nat \<Rightarrow> nat \<Rightarrow> (nat \<Rightarrow> nat) \<Rightarrow> (nat \<Rightarrow> nat) \<Rightarrow> (nat \<Rightarrow> 'a) \<Rightarrow>
   'a list \<Rightarrow> nat list \<Rightarrow> 'a list option \<Rightarrow> exn + nat \<times> 'a list" where
  "copy_to_dense W pad shared0 slots0 out0 data msk out =
     (let slots = gpu_mask_assign_slot W 32 shared0 msk (device_array slots0 (length data));
          sz = last slots + 1
      in case out of
           None \<Rightarrow>
             Inr (sz, forall_launch (length data) pad (gpu_copy_to_dense W data msk slots)
                        (device_array out0 sz))
         | Some out \<Rightarrow>
             if sz \<ge> length out then Inl ValueError
             else Inr (sz, forall_launch (length data) pad (gpu_copy_to_dense W data msk slots)
                             out))"

section \<open>Reduction kernels\<close>

text \<open>
  The reductions work on buffers that the caller goes on holding, so device
  memory is explicit here: a list of buffers, a buffer being named by its
  index. \<^verbatim>\<open>cuda.device_array_like\<close> appends a fresh buffer of the same size, not
  initialised; \<^verbatim>\<open>copy_to_device\<close> overwrites a buffer with the content of
  another.
\<close>

type_synonym 'a devmem = "'a list list"

definition device_array_like :: "(nat \<Rightarrow> 'a) \<Rightarrow> 'a devmem \<Rightarrow> nat \<Rightarrow> 'a devmem \<times> nat" where
  "device_array_like uninit mem arr =
     (mem @ [device_array uninit (length (mem ! arr))], length mem)"

definition copy_to_device :: "'a devmem \<Rightarrow> nat \<Rightarrow> nat \<Rightarrow> 'a devmem" where
  "copy_to_device mem dst src = mem[dst := mem ! src]"

text \<open>\<^verbatim>\<open>copy_array\<close>, with its assertion on the sizes.\<close>

definition copy_array :: "(nat \<Rightarrow> 'a) \<Rightarrow> 'a devmem \<Rightarrow> nat \<Rightarrow> nat option \<Rightarrow> exn + 'a devmem \<times> nat" where
  "copy_array uninit mem arr out =
     (case (case out of None \<Rightarrow> device_array_like uninit mem arr | Some h \<Rightarrow> (mem, h)) of
        (mem1, out1) \<Rightarrow>
          if length (mem1 ! out1) \<noteq> length (mem1 ! arr) then Inl AssertionError
          else Inr (copy_to_device mem1 out1 arr, out1))"

text \<open>
  Modelled from the spec: \<^verbatim>\<open>cuda.reduce\<close> is the reduction of the CUDA library,
  whose code is not part of the repository. Section 4.4 of the specification
  gives its result: \<open>fold(op, data, init)\<close>, the initial value combined with
  every element. The docstring of \<^verbatim>\<open>_run_reduction\<close> says that the reduction
  overwrites the array it is given; \<open>consumed\<close> stands for whatever it leaves
  there.
\<close>

definition cuda_reduce ::
  "('a \<Rightarrow> 'a \<Rightarrow> 'a) \<Rightarrow> ('a list \<Rightarrow> 'a list) \<Rightarrow> 'a devmem \<Rightarrow> nat \<Rightarrow> 'a \<Rightarrow> 'a devmem \<times> 'a" where
  "cuda_reduce binop consumed mem arr init =
     (mem[arr := consumed (mem ! arr)], foldl binop init (mem ! arr))"

definition gpu_sum :: "('a::plus list \<Rightarrow> 'a list) \<Rightarrow> 'a devmem \<Rightarrow> nat \<Rightarrow> 'a \<Rightarrow> 'a devmem \<times> 'a" where
  "gpu_sum = cuda_reduce (\<lambda>x y. x + y)"

definition gpu_min :: "('a::ord list \<Rightarrow> 'a list) \<Rightarrow> 'a devmem \<Rightarrow> nat \<Rightarrow> 'a \<Rightarrow> 'a devmem \<times> 'a" where
  "gpu_min = cuda_reduce (\<lambda>x y. min x y)"

definition gpu_max :: "('a::ord list \<Rightarrow> 'a list) \<Rightarrow> 'a devmem \<Rightarrow> nat \<Rightarrow> 'a \<Rightarrow> 'a devmem \<times> 'a" where
  "gpu_max = cuda_reduce (\<lambda>x y. max x y)"

text \<open>
  \<^verbatim>\<open>_run_reduction\<close>, and its partial applications. \<^verbatim>\<open>compute_sum\<close> binds
  \<^verbatim>\<open>init=0\<close>; \<^verbatim>\<open>compute_min\<close> and \<^verbatim>\<open>compute_max\<close> bind no initial value, so
  that it is the default of \<^verbatim>\<open>_run_reduction\<close>, which is 0 as well.
\<close>

definition run_reduction ::
  "('a devmem \<Rightarrow> nat \<Rightarrow> 'a \<Rightarrow> 'a devmem \<times> 'a) \<Rightarrow> (nat \<Rightarrow> 'a) \<Rightarrow>
   'a devmem \<Rightarrow> nat \<Rightarrow> 'a \<Rightarrow> bool \<Rightarrow> exn + 'a devmem \<times> 'a" where
  "run_reduction gpu_reduce uninit mem arr init inplace =
     (case (if \<not> inplace then copy_array uninit mem arr None else Inr (mem, arr)) of
        Inl e \<Rightarrow> Inl e
      | Inr (mem1, arr1) \<Rightarrow> Inr (gpu_reduce mem1 arr1 init))"

definition compute_sum ::
  "('a::{plus,zero} list \<Rightarrow> 'a list) \<Rightarrow> (nat \<Rightarrow> 'a) \<Rightarrow> 'a devmem \<Rightarrow> nat \<Rightarrow> bool \<Rightarrow> exn + 'a devmem \<times> 'a" where
  "compute_sum consumed uninit mem arr inplace =
     run_reduction (gpu_sum consumed) uninit mem arr 0 inplace"

definition compute_min ::
  "('a::{ord,zero} list \<Rightarrow> 'a list) \<Rightarrow> (nat \<Rightarrow> 'a) \<Rightarrow> 'a devmem \<Rightarrow> nat \<Rightarrow> bool \<Rightarrow> exn + 'a devmem \<times> 'a" where
  "compute_min consumed uninit mem arr inplace =
     run_reduction (gpu_min consumed) uninit mem arr 0 inplace"

definition compute_max ::
  "('a::{ord,zero} list \<Rightarrow> 'a list) \<Rightarrow> (nat \<Rightarrow> 'a) \<Rightarrow> 'a devmem \<Rightarrow> nat \<Rightarrow> bool \<Rightarrow> exn + 'a devmem \<times> 'a" where
  "compute_max consumed uninit mem arr inplace =
     run_reduction (gpu_max consumed) uninit mem arr 0 inplace"

text \<open>
  \<^verbatim>\<open>compute_mean\<close>. Values are idealised (a field, not floating point); the
  mean of an empty array, which is not a number, is \<open>None\<close>.
\<close>

definition compute_mean ::
  "('a::field list \<Rightarrow> 'a list) \<Rightarrow> (nat \<Rightarrow> 'a) \<Rightarrow> 'a devmem \<Rightarrow> nat \<Rightarrow> bool \<Rightarrow> exn + 'a devmem \<times> 'a option" where
  "compute_mean consumed uninit mem arr inplace =
     (case compute_sum consumed uninit mem arr inplace of
        Inl e \<Rightarrow> Inl e
      | Inr (mem', s) \<Rightarrow>
          let n = length (mem ! arr)
          in Inr (mem', if n = 0 then None else Some (s / of_nat n)))"

section \<open>Bounded unique values\<close>

definition MAX_FAST_UNIQUE_K :: nat where
  "MAX_FAST_UNIQUE_K = 2 * 1024"

text \<open>
  \<^verbatim>\<open>gpu_unique_set_insert\<close> returns the set and the new size, or -1 when the set
  is out of space. The set is a shared array of \<open>MAX_FAST_UNIQUE_K\<close> cells, not
  initialised: a function from the cell index to its content. After the search
  loop the index \<^verbatim>\<open>i\<close> is the last index searched, and is moved one further when
  the set is not empty; when the set is empty the loop has not run and the code
  takes \<^verbatim>\<open>i\<close> to be 0, which is what the model does. Values are compared with
  the equality of HOL.
\<close>

definition gpu_unique_set_insert :: "(nat \<Rightarrow> 'a) \<Rightarrow> int \<Rightarrow> 'a \<Rightarrow> (nat \<Rightarrow> 'a) \<times> int" where
  "gpu_unique_set_insert vset sz val =
     (if list_ex (\<lambda>i. vset i = val) [0..<nat sz] then (vset, sz)
      else (let i = (if sz > 0 then (sz - 1) + 1 else 0)
            in if i < int MAX_FAST_UNIQUE_K then (vset(nat i := val), sz + 1)
               else (vset, - 1)))"

text \<open>
  The kernel \<^verbatim>\<open>gpu_unique_k\<close> runs as one block; its barriers separate the load
  of a chunk by all threads, the insertion of the chunk by thread 0, and the
  next round. The state of the block is the set, the loaded chunk, the size of
  the set and \<^verbatim>\<open>base\<close>. Thread 0 publishes the size through the shared cell
  \<^verbatim>\<open>share_vset_size\<close>, which every thread reads back after the second barrier:
  the size in the state is that value.

  \<open>unique_k_insert\<close> is the body of the insertion loop of thread 0,
  \<open>unique_k_chunk\<close> one round of the \<^verbatim>\<open>while\<close> loop.
\<close>

record 'a unique_state =
  u_vset :: "nat \<Rightarrow> 'a"
  u_share_loaded :: "nat \<Rightarrow> 'a"
  u_vset_size :: int
  u_base :: nat

definition unique_k_insert :: "int \<Rightarrow> 'a \<Rightarrow> (nat \<Rightarrow> 'a) \<times> int \<Rightarrow> (nat \<Rightarrow> 'a) \<times> int" where
  "unique_k_insert sm_mem_size val = (\<lambda>(vset, vset_size).
     (case gpu_unique_set_insert vset vset_size val of
        (vset', new_size) \<Rightarrow>
          if new_size \<ge> 0 then (vset', new_size) else (vset', sm_mem_size + 1)))"

definition unique_k_chunk :: "nat \<Rightarrow> 'a list \<Rightarrow> int \<Rightarrow> 'a unique_state \<Rightarrow> 'a unique_state" where
  "unique_k_chunk blksz arr sm_mem_size st =
     (let valid_load = min blksz (length arr - u_base st);
          loaded =
            fold (\<lambda>tid sl.
                    let pos = u_base st + tid
                    in if tid < valid_load then sl(tid := arr ! pos) else sl)
                 [0..<blksz] (u_share_loaded st);
          (vset, vset_size) =
            fold (\<lambda>i. unique_k_insert sm_mem_size (loaded i))
                 [0..<valid_load] (u_vset st, u_vset_size st)
      in \<lparr>u_vset = vset, u_share_loaded = loaded, u_vset_size = vset_size,
          u_base = u_base st + blksz\<rparr>)"

text \<open>
  The \<^verbatim>\<open>while\<close> loop. Every round moves \<^verbatim>\<open>base\<close> by the block width, which is
  why the loop ends; the guard \<open>0 < blksz\<close> makes the recursion total for the
  block width 0 that no launch can have.
\<close>

lemma u_base_chunk: "u_base (unique_k_chunk blksz arr sm st) = u_base st + blksz"
  by (simp add: unique_k_chunk_def Let_def split_def)

function unique_k_loop :: "nat \<Rightarrow> 'a list \<Rightarrow> int \<Rightarrow> 'a unique_state \<Rightarrow> 'a unique_state" where
  "unique_k_loop blksz arr sm_mem_size st =
     (if u_vset_size st < sm_mem_size \<and> u_base st < length arr \<and> 0 < blksz
      then unique_k_loop blksz arr sm_mem_size (unique_k_chunk blksz arr sm_mem_size st)
      else st)"
  by pat_completeness auto
termination
  by (relation "measure (\<lambda>(blksz, arr, sm, st). length arr - u_base st)")
     (auto simp: u_base_chunk)

declare unique_k_loop.simps [simp del]

text \<open>Python's \<^verbatim>\<open>range(start, stop, step)\<close> for a positive step.\<close>

function range3 :: "nat \<Rightarrow> nat \<Rightarrow> nat \<Rightarrow> nat list" where
  "range3 start stop step =
     (if start < stop \<and> 0 < step then start # range3 (start + step) stop step else [])"
  by pat_completeness auto
termination
  by (relation "measure (\<lambda>(start, stop, step). stop - start)") auto

declare range3.simps [simp del]

text \<open>
  The kernel: the loop, then the output. On success every thread copies the
  cells of the set at its own stride into \<^verbatim>\<open>out\<close> and the size is stored in
  \<^verbatim>\<open>outsz_ptr\<close>; otherwise \<^verbatim>\<open>outsz_ptr\<close> receives -1. The result is \<^verbatim>\<open>out\<close>
  and the content of \<^verbatim>\<open>outsz_ptr\<close>.
\<close>

definition gpu_unique_k ::
  "nat \<Rightarrow> (nat \<Rightarrow> 'a) \<Rightarrow> (nat \<Rightarrow> 'a) \<Rightarrow> 'a list \<Rightarrow> int \<Rightarrow> 'a list \<Rightarrow> 'a list \<times> int" where
  "gpu_unique_k blksz vset0 loaded0 arr k out =
     (let sm_mem_size = min k (int MAX_FAST_UNIQUE_K);
          st = unique_k_loop blksz arr sm_mem_size
                 \<lparr>u_vset = vset0, u_share_loaded = loaded0, u_vset_size = 0, u_base = 0\<rparr>
      in if u_vset_size st \<le> sm_mem_size
         then (fold (\<lambda>tid out.
                       fold (\<lambda>i out. out[i := u_vset st i])
                            (range3 tid (nat (u_vset_size st)) blksz) out)
                    [0..<blksz] out,
               u_vset_size st)
         else (out, - 1))"

text \<open>
  \<^verbatim>\<open>UniqueK.run\<close>, which launches the kernel with one block of 64 threads, and
  \<^verbatim>\<open>compute_unique_k\<close>. The cache of compiled kernels has no part in the result.
\<close>

definition UniqueK_run ::
  "(nat \<Rightarrow> 'a) \<Rightarrow> (nat \<Rightarrow> 'a) \<Rightarrow> (nat \<Rightarrow> 'a) \<Rightarrow> 'a list \<Rightarrow> int \<Rightarrow> exn + 'a list" where
  "UniqueK_run vset0 loaded0 out0 arr k =
     (if k \<ge> int MAX_FAST_UNIQUE_K then Inl NotImplementedError
      else (case gpu_unique_k 64 vset0 loaded0 arr k (device_array out0 (length arr)) of
              (hout, unique_ct) \<Rightarrow>
                if unique_ct < 0 then Inl ValueError
                else Inr (take (nat unique_ct) hout)))"

definition compute_unique_k ::
  "(nat \<Rightarrow> 'a) \<Rightarrow> (nat \<Rightarrow> 'a) \<Rightarrow> (nat \<Rightarrow> 'a) \<Rightarrow> 'a list \<Rightarrow> int \<Rightarrow> exn + 'a list" where
  "compute_unique_k vset0 loaded0 out0 arr k = UniqueK_run vset0 loaded0 out0 arr k"

section \<open>Specification functions\<close>

text \<open>
  The validity bit of element \<open>i\<close> of a column of \<open>n\<close> elements (0 beyond the
  column, as the kernel loads it), and the number of valid elements before
  position \<open>m\<close>.
\<close>

definition valid_bit :: "nat \<Rightarrow> nat list \<Rightarrow> nat \<Rightarrow> nat \<Rightarrow> nat" where
  "valid_bit W msk n i = (if i < n then gpu_mask_get W msk i else 0)"

definition rank_upto :: "nat \<Rightarrow> nat list \<Rightarrow> nat \<Rightarrow> nat \<Rightarrow> nat" where
  "rank_upto W msk n m = sum_list (map (valid_bit W msk n) [0..<m])"

text \<open>The valid elements of a column, in their order: what compaction is to return.\<close>

definition dense_of :: "nat \<Rightarrow> 'a list \<Rightarrow> nat list \<Rightarrow> 'a list" where
  "dense_of W data msk =
     map (\<lambda>i. data ! i) (filter (\<lambda>i. gpu_mask_get W msk i \<noteq> 0) [0..<length data])"

text \<open>
  The first \<open>sz\<close> cells of the set, and the set holding exactly the values \<open>S\<close>,
  each once.
\<close>

definition vset_elems :: "(nat \<Rightarrow> 'a) \<Rightarrow> int \<Rightarrow> 'a list" where
  "vset_elems vset sz = map vset [0..<nat sz]"

definition vset_holds :: "(nat \<Rightarrow> 'a) \<Rightarrow> int \<Rightarrow> 'a set \<Rightarrow> bool" where
  "vset_holds vset sz S \<longleftrightarrow> 0 \<le> sz \<and> distinct (vset_elems vset sz) \<and> set (vset_elems vset sz) = S"

section \<open>Generic facts about kernels that write their own cell\<close>

lemma fold_own_cell_length:
  "length (fold (\<lambda>t xs. if t < length xs \<and> c t then xs[t := g t] else xs) ts xs) = length xs"
  by (induction ts arbitrary: xs) auto

lemma fold_own_cell_nth:
  "i < length xs \<Longrightarrow>
   fold (\<lambda>t xs. if t < length xs \<and> c t then xs[t := g t] else xs) ts xs ! i =
     (if i \<in> set ts \<and> c i then g i else xs ! i)"
proof (induction ts arbitrary: xs)
  case Nil
  then show ?case by simp
next
  case (Cons t ts)
  let ?step = "\<lambda>t xs. if t < length xs \<and> c t then xs[t := g t] else xs"
  have len: "i < length (?step t xs)" using Cons.prems by simp
  have "fold ?step (t # ts) xs ! i = fold ?step ts (?step t xs) ! i" by simp
  also have "\<dots> = (if i \<in> set ts \<and> c i then g i else ?step t xs ! i)"
    using Cons.IH [OF len] .
  also have "\<dots> = (if i \<in> set (t # ts) \<and> c i then g i else xs ! i)"
    using Cons.prems by (auto simp: nth_list_update)
  finally show ?case .
qed

section \<open>Mask codec: facts\<close>

lemma gpu_mask_get_bit:
  "gpu_mask_get W msk pos = of_bool (bit (msk ! (pos div W)) (pos mod W))"
  by (simp add: gpu_mask_get_def and_one_eq bit_iff_odd_drop_bit mod_2_eq_odd)

lemma gpu_mask_get_cases: "gpu_mask_get W msk pos = 0 \<or> gpu_mask_get W msk pos = 1"
  by (simp add: gpu_mask_get_bit)

lemma gpu_fill_masked_own_cell:
  "gpu_fill_masked W v msk =
     (\<lambda>t xs. if t < length xs \<and> gpu_mask_get W msk t = 0 then xs[t := v] else xs)"
  by (intro ext) (simp add: gpu_fill_masked_def)

lemma fillna_length: "length (fillna W pad data msk v) = length data"
  by (simp add: fillna_def forall_launch_def gpu_fill_masked_own_cell fold_own_cell_length)

lemma fillna_nth:
  "i < length data \<Longrightarrow>
   fillna W pad data msk v ! i = (if gpu_mask_get W msk i = 0 then v else data ! i)"
  by (simp add: fillna_def forall_launch_def gpu_fill_masked_own_cell fold_own_cell_nth)

lemma bit_push_of_bool:
  "bit (push_bit sh (of_bool b) :: nat) s \<longleftrightarrow> b \<and> s = sh"
  by (cases b) (auto simp: bit_exp_iff)

lemma bit_fold_or:
  "bit (fold (\<lambda>shift val. val OR push_bit shift (of_bool (P shift))) [0..<n] (v0::nat)) s
     \<longleftrightarrow> bit v0 s \<or> (s < n \<and> P s)"
proof (induction n)
  case 0
  then show ?case by simp
next
  case (Suc n)
  then show ?case
    by (auto simp: bit_or_iff bit_push_of_bool less_Suc_eq)
qed

lemma bit_set_mask_word:
  "bit (set_mask_word W stride base) s \<longleftrightarrow> s < W \<and> int (base + s) mod stride = 0"
  using bit_fold_or [where P = "\<lambda>sh. int (base + sh) mod stride = 0", of W 0 s]
  by (simp add: set_mask_word_def)

lemma set_mask_word_bound: "set_mask_word W stride base < 2 ^ W"
proof -
  have "take_bit W (set_mask_word W stride base) = set_mask_word W stride base"
    by (rule bit_eqI) (auto simp: bit_take_bit_iff bit_set_mask_word)
  then show ?thesis by (simp add: take_bit_nat_eq_self_iff)
qed

lemma gpu_set_mask_own_cell:
  "gpu_set_mask_from_stride W stride =
     (\<lambda>t xs. if t < length xs \<and> True then xs[t := set_mask_word W stride (t * W)] else xs)"
  by (intro ext) (simp add: gpu_set_mask_from_stride_def)

lemma set_mask_from_stride_length:
  "length (set_mask_from_stride W pad msk stride) = length msk"
  using fold_own_cell_length [where c = "\<lambda>_. True"]
  by (simp add: set_mask_from_stride_def forall_launch_def gpu_set_mask_own_cell)

lemma set_mask_from_stride_nth:
  "t < length msk \<Longrightarrow>
   set_mask_from_stride W pad msk stride ! t = set_mask_word W stride (t * W)"
  using fold_own_cell_nth [where c = "\<lambda>_. True" and xs = msk and i = t
      and g = "\<lambda>t. set_mask_word W stride (t * W)" and ts = "[0..<length msk + pad]"]
  by (simp add: set_mask_from_stride_def forall_launch_def gpu_set_mask_own_cell)

lemma set_mask_from_stride_get:
  assumes "0 < W" "i < W * length msk"
  shows "gpu_mask_get W (set_mask_from_stride W pad msk stride) i
           = of_bool (int i mod stride = 0)"
proof -
  have t: "i div W < length msk"
    using assms by (simp add: less_mult_imp_div_less mult.commute)
  show ?thesis
    using assms t by (simp add: gpu_mask_get_bit set_mask_from_stride_nth bit_set_mask_word)
qed

lemma div_offset: "r < s \<Longrightarrow> (q * s + r) div s = (q::nat)"
  by simp

lemma count_multiples:
  assumes "0 < s"
  shows "length (filter (\<lambda>i. i mod s = 0) [0..<N]) = (N + s - 1) div s"
proof (induction N)
  case 0
  then show ?case using assms by simp
next
  case (Suc N)
  define r where "r = N mod s"
  define q where "q = N div s"
  have N: "N = q * s + r" by (simp add: q_def r_def)
  have r: "r < s" using assms by (simp add: r_def)
  have step: "(Suc N + s - 1) div s = (N + s - 1) div s + (if N mod s = 0 then 1 else 0)"
  proof (cases "r = 0")
    case True
    have e1: "Suc N + s - 1 = (q + 1) * s + 0" using N True by simp
    have e2: "N + s - 1 = q * s + (s - 1)" using N True assms by simp
    have "(Suc N + s - 1) div s = q + 1"
      unfolding e1 by (rule div_offset) (rule assms)
    moreover have "(N + s - 1) div s = q"
      unfolding e2 by (rule div_offset) (use assms in simp)
    ultimately show ?thesis using True by (simp add: r_def)
  next
    case False
    have e1: "Suc N + s - 1 = (q + 1) * s + r" using N by simp
    have e2: "N + s - 1 = (q + 1) * s + (r - 1)" using N False by simp
    have "(Suc N + s - 1) div s = q + 1"
      unfolding e1 by (rule div_offset) (rule r)
    moreover have "(N + s - 1) div s = q + 1"
      unfolding e2 by (rule div_offset) (use r in simp)
    ultimately show ?thesis using False by (simp add: r_def)
  qed
  show ?case using Suc step by simp
qed

lemma ceil_div_nat:
  assumes "0 < s"
  shows "\<lceil>real N / real s\<rceil> = int ((N + s - 1) div s)"
proof -
  define q where "q = (N + s - 1) div s"
  define r where "r = (N + s - 1) mod s"
  have e: "N + s - 1 = q * s + r" by (simp add: q_def r_def)
  have r: "r < s" using assms by (simp add: r_def)
  have lo: "q * s < N + s" using e r assms by linarith
  have hi: "N \<le> q * s" using e r assms by linarith
  have lo': "real q * real s < real N + real s"
    using lo by (metis of_nat_add of_nat_less_iff of_nat_mult)
  have hi': "real N \<le> real q * real s"
    using hi by (metis of_nat_le_iff of_nat_mult)
  have s': "0 < real s" using assms by simp
  have "(real q - 1) * real s < real N"
    using lo' by (simp add: algebra_simps)
  then have "real q - 1 < real N / real s"
    by (simp only: pos_less_divide_eq [OF s'])
  then have a: "real_of_int (int q) - 1 < real N / real s"
    by simp
  have b: "real N / real s \<le> real_of_int (int q)"
    using hi' s' by (simp add: pos_divide_le_eq)
  show ?thesis unfolding q_def [symmetric] using a b by (rule ceiling_unique)
qed

lemma mod_int_nat: "1 \<le> S \<Longrightarrow> (int i mod S = 0) = (i mod nat S = 0)"
  by (metis int_nat_eq int_ops(1) of_nat_eq_iff zmod_int zero_le_one order_trans)

section \<open>Compaction: facts\<close>

lemma gpu_prefixsum_eq:
  "gpu_prefixsum xs acc =
     (map (\<lambda>i. acc + sum_list (take i xs)) [0..<length xs], acc + sum_list xs)"
proof (induction xs arbitrary: acc)
  case Nil
  then show ?case by simp
next
  case (Cons x xs)
  have "map (\<lambda>i. acc + sum_list (take i (x # xs))) [0..<length (x # xs)]
        = acc # map (\<lambda>i. acc + x + sum_list (take i xs)) [0..<length xs]"
    by (simp add: upt_conv_Cons map_Suc_upt [symmetric] del: upt_Suc)
  then show ?case using Cons.IH [of "acc + x"] by (simp add: add.assoc)
qed

lemma rank_upto_add:
  "rank_upto W msk n (base + t)
     = rank_upto W msk n base + sum_list (map (\<lambda>j. valid_bit W msk n (base + j)) [0..<t])"
  by (induction t) (simp_all add: rank_upto_def)

lemma fold_offset_cell_length:
  "length (fold (\<lambda>t xs. if base + t < n then xs[base + t := g t] else xs) ts xs) = length xs"
  by (induction ts arbitrary: xs) auto

lemma fold_offset_cell_nth:
  "i < length xs \<Longrightarrow> length xs = n \<Longrightarrow>
   fold (\<lambda>t xs. if base + t < n then xs[base + t := g t] else xs) [0..<k] xs ! i =
     (if base \<le> i \<and> i < base + k then g (i - base) else xs ! i)"
proof (induction k)
  case 0
  then show ?case by auto
next
  case (Suc k)
  then show ?case
    by (auto simp: nth_list_update fold_offset_cell_length)
qed

lemmas fold_cell_length = fold_own_cell_length [where c = "\<lambda>_. True", simplified]

lemmas fold_cell_nth = fold_own_cell_nth [where c = "\<lambda>_. True", simplified]

lemma load_body_own_cell:
  "(\<lambda>tid sm. let i = base + tid; sm' = sm[tid := 0]
              in if i < n then sm'[tid := gpu_mask_get W msk i] else sm')
   = (\<lambda>t xs. if t < length xs then xs[t := valid_bit W msk n (base + t)] else xs)"
  by (intro ext) (auto simp: valid_bit_def Let_def list_update_beyond)

lemma store_body_offset_cell:
  "(\<lambda>tid sl. let i = base + tid in if i < n then sl[i := g tid] else sl)
   = (\<lambda>t xs. if base + t < n then xs[base + t := g t] else xs)"
  by (simp add: Let_def)

lemma take_all_but_last:
  assumes "length xs = Suc k" and "\<forall>t<k. xs ! t = f t"
  shows "take k xs = map f [0..<k]"
  using assms by (intro nth_equalityI) simp_all

lemma assign_slot_chunk_32:
  fixes st :: slot_state and W n base :: nat and msk :: "nat list"
  assumes sm: "length (s_sm_prefix st) = 33" and sl: "length (s_slots st) = n"
  defines "st' \<equiv> assign_slot_chunk W 32 msk n base st"
  defines "part \<equiv> \<lambda>t. sum_list (map (\<lambda>j. valid_bit W msk n (base + j)) [0..<t])"
  shows "length (s_sm_prefix st') = 33"
    and "length (s_slots st') = n"
    and "s_offset st' = s_offset st + part 32"
    and "i < n \<Longrightarrow> s_slots st' ! i =
           (if base \<le> i \<and> i < base + 32 then s_offset st + part (i - base) else s_slots st ! i)"
proof -
  define loaded where "loaded =
    fold (\<lambda>t xs. if t < length xs then xs[t := valid_bit W msk n (base + t)] else xs)
      [0..<32] (s_sm_prefix st)"
  have len_loaded: "length loaded = 33"
    using sm by (simp add: loaded_def fold_cell_length)
  have nth_loaded: "loaded ! t = valid_bit W msk n (base + t)" if "t < 32" for t
    using that sm by (simp add: loaded_def fold_cell_nth)
  have take_loaded: "take 32 loaded = map (\<lambda>t. valid_bit W msk n (base + t)) [0..<32]"
    using len_loaded nth_loaded by (intro take_all_but_last) simp_all
  define scanned where "scanned = map (\<lambda>i. s_offset st + sum_list (take i (take 32 loaded))) [0..<32]"
  define acc where "acc = s_offset st + sum_list (take 32 loaded)"
  have ps: "gpu_prefixsum (take 32 loaded) (s_offset st) = (scanned, acc)"
    using len_loaded by (simp add: gpu_prefixsum_eq scanned_def acc_def)
  define sm3 where "sm3 = (scanned @ drop 32 loaded)[32 := acc]"
  have len_scanned: "length scanned = 32" by (simp add: scanned_def)
  have len_sm3: "length sm3 = 33" using len_loaded len_scanned by (simp add: sm3_def)
  have sm3_32: "sm3 ! 32 = acc" using len_loaded len_scanned by (simp add: sm3_def)
  have sm3_t: "sm3 ! t = s_offset st + part t" if "t < 32" for t
  proof -
    have "sm3 ! t = scanned ! t"
      using that len_scanned by (simp add: sm3_def nth_append)
    also have "\<dots> = s_offset st + sum_list (take t (take 32 loaded))"
      using that by (simp add: scanned_def)
    also have "take t (take 32 loaded) = map (\<lambda>j. valid_bit W msk n (base + j)) [0..<t]"
      using that by (simp add: take_loaded take_map)
    finally show ?thesis by (simp add: part_def)
  qed
  have acc_eq: "acc = s_offset st + part 32"
    by (simp add: acc_def take_loaded part_def)
  have st': "st' = \<lparr>s_sm_prefix = sm3, s_offset = sm3 ! 32,
      s_slots = fold (\<lambda>t xs. if base + t < n then xs[base + t := sm3 ! t] else xs) [0..<32] (s_slots st)\<rparr>"
    unfolding st'_def assign_slot_chunk_def load_body_own_cell store_body_offset_cell sm3_def
    by (simp add: loaded_def [symmetric] ps Let_def)
  show "length (s_sm_prefix st') = 33" by (simp add: st' len_sm3)
  show "length (s_slots st') = n" by (simp add: st' sl fold_offset_cell_length)
  show "s_offset st' = s_offset st + part 32" by (simp add: st' sm3_32 acc_eq)
  show "s_slots st' ! i =
           (if base \<le> i \<and> i < base + 32 then s_offset st + part (i - base) else s_slots st ! i)"
    if "i < n"
  proof -
    have "s_slots st' ! i = (if base \<le> i \<and> i < base + 32 then sm3 ! (i - base) else s_slots st ! i)"
      using that sl by (simp add: st' fold_offset_cell_nth)
    then show ?thesis using sm3_t [of "i - base"] by auto
  qed
qed

lemma assign_slot_loop_inv:
  "blksz = 32 \<Longrightarrow> length (s_sm_prefix st) = 33 \<Longrightarrow> length (s_slots st) = n \<Longrightarrow>
   s_offset st = rank_upto W msk n base \<Longrightarrow>
   (\<forall>i<n. i < base \<longrightarrow> s_slots st ! i = rank_upto W msk n i) \<Longrightarrow>
   length (s_slots (assign_slot_loop W blksz msk n base st)) = n \<and>
   (\<forall>i<n. s_slots (assign_slot_loop W blksz msk n base st) ! i = rank_upto W msk n i)"
proof (induction W blksz msk n base st rule: assign_slot_loop.induct)
  case (1 W blksz msk n base st)
  show ?case
  proof (cases "base < n")
    case False
    then have "assign_slot_loop W blksz msk n base st = st"
      by (simp add: assign_slot_loop.simps)
    then show ?thesis using "1.prems" False by auto
  next
    case True
    define st' where "st' = assign_slot_chunk W blksz msk n base st"
    have st'_32: "st' = assign_slot_chunk W 32 msk n base st"
      using "1.prems"(1) by (simp add: st'_def)
    note ch = assign_slot_chunk_32 [OF "1.prems"(2,3), where W = W and msk = msk and base = base,
        folded st'_32]
    have unf: "assign_slot_loop W blksz msk n base st
               = assign_slot_loop W blksz msk n (base + blksz) st'"
      using True "1.prems"(1) by (subst assign_slot_loop.simps) (simp add: st'_def)
    have off: "s_offset st' = rank_upto W msk n (base + blksz)"
      using ch(3) "1.prems"(1,4) by (simp add: rank_upto_add)
    have sl: "\<forall>i<n. i < base + blksz \<longrightarrow> s_slots st' ! i = rank_upto W msk n i"
    proof (intro allI impI)
      fix i assume i: "i < n" "i < base + blksz"
      show "s_slots st' ! i = rank_upto W msk n i"
      proof (cases "base \<le> i")
        case True
        then have "s_slots st' ! i = s_offset st
            + sum_list (map (\<lambda>j. valid_bit W msk n (base + j)) [0..<i - base])"
          using ch(4) [OF i(1)] i(2) "1.prems"(1) by simp
        also have "\<dots> = rank_upto W msk n (base + (i - base))"
          using "1.prems"(4) by (simp add: rank_upto_add)
        finally show ?thesis using True by simp
      next
        case False
        then show ?thesis using ch(4) [OF i(1)] "1.prems"(5) i(1) by simp
      qed
    qed
    have "length (s_slots (assign_slot_loop W blksz msk n (base + blksz) st')) = n \<and>
      (\<forall>i<n. s_slots (assign_slot_loop W blksz msk n (base + blksz) st') ! i = rank_upto W msk n i)"
      using True "1.prems"(1) ch(1,2) off sl
      by (intro "1.IH" [folded st'_def]) simp_all
    then show ?thesis unfolding unf .
  qed
qed

lemma rank_upto_count:
  "m \<le> n \<Longrightarrow> rank_upto W msk n m = card {j. j < m \<and> gpu_mask_get W msk j = 1}"
proof (induction m)
  case 0
  then show ?case by (simp add: rank_upto_def)
next
  case (Suc m)
  let ?A = "{j. j < m \<and> gpu_mask_get W msk j = 1}"
  let ?B = "{j. j < Suc m \<and> gpu_mask_get W msk j = 1}"
  have step: "rank_upto W msk n (Suc m) = rank_upto W msk n m + gpu_mask_get W msk m"
    using Suc.prems by (simp add: rank_upto_def valid_bit_def)
  have ih: "rank_upto W msk n m = card ?A" using Suc by simp
  show ?case
  proof (cases "gpu_mask_get W msk m = 1")
    case True
    have "?B = insert m ?A" using True by (auto simp: less_Suc_eq)
    moreover have "m \<notin> ?A" by simp
    moreover have "finite ?A" by simp
    ultimately have "card ?B = Suc (card ?A)" by simp
    then show ?thesis using step ih True by simp
  next
    case False
    then have z: "gpu_mask_get W msk m = 0" using gpu_mask_get_cases [of W msk m] by simp
    have "?B = ?A" using False by (auto simp: less_Suc_eq)
    then show ?thesis using step ih z by simp
  qed
qed

lemma gpu_mask_assign_slot_eq:
  assumes "length slots0 = n"
  shows "gpu_mask_assign_slot W 32 shared0 msk slots0 = map (rank_upto W msk n) [0..<n]"
proof -
  let ?st = "\<lparr>s_sm_prefix = device_array shared0 33, s_offset = 0, s_slots = slots0\<rparr>"
  have inv: "length (s_slots (assign_slot_loop W 32 msk n 0 ?st)) = n \<and>
     (\<forall>i<n. s_slots (assign_slot_loop W 32 msk n 0 ?st) ! i = rank_upto W msk n i)"
    using assms by (intro assign_slot_loop_inv) (simp_all add: device_array_def rank_upto_def)
  show ?thesis
    using inv assms by (intro nth_equalityI) (simp_all add: gpu_mask_assign_slot_def)
qed

lemma forall_launch_surplus:
  assumes "\<And>t s. ntasks \<le> t \<Longrightarrow> kern t s = s"
  shows "forall_launch ntasks pad kern s = fold kern [0..<ntasks] s"
  using assms by (induction pad) (simp_all add: forall_launch_def)

lemma copy_to_dense_eq:
  fixes W :: nat and msk :: "nat list" and data :: "'a list"
  assumes "data \<noteq> []"
  defines "n \<equiv> length data"
  defines "ranks \<equiv> map (rank_upto W msk (length data)) [0..<length data]"
  defines "sz \<equiv> rank_upto W msk (length data) (length data - 1) + 1"
  shows "copy_to_dense W pad shared0 slots0 out0 data msk out =
     (case out of
        None \<Rightarrow> Inr (sz, fold (gpu_copy_to_dense W data msk ranks) [0..<n] (device_array out0 sz))
      | Some out \<Rightarrow>
          if sz \<ge> length out then Inl ValueError
          else Inr (sz, fold (gpu_copy_to_dense W data msk ranks) [0..<n] out))"
proof -
  have slots: "gpu_mask_assign_slot W 32 shared0 msk (device_array slots0 n) = ranks"
    by (simp add: gpu_mask_assign_slot_eq [where n = "length data"] device_array_def ranks_def
          n_def)
  have "ranks \<noteq> []" using assms(1) by (simp add: ranks_def)
  then have "last ranks = ranks ! (length ranks - 1)" by (rule last_conv_nth)
  then have last: "last ranks + 1 = sz"
    using assms(1) by (simp add: ranks_def sz_def)
  have launch: "forall_launch n pad (gpu_copy_to_dense W data msk ranks) s
          = fold (gpu_copy_to_dense W data msk ranks) [0..<n] s" for s :: "'a list"
    by (rule forall_launch_surplus) (simp add: gpu_copy_to_dense_def n_def)
  show ?thesis
    unfolding copy_to_dense_def n_def [symmetric] slots Let_def last launch ..
qed

text \<open>
  What \<open>copy_to_dense\<close> returns when it allocates the output: the valid elements
  and their number when the last element is valid; one more than their number,
  and one cell more that no thread has written, when it is not.
\<close>

lemma rank_upto_Suc:
  "rank_upto W msk n (Suc m) = rank_upto W msk n m + valid_bit W msk n m"
  by (simp add: rank_upto_def)

lemma gather_prefix:
  fixes data :: "'a list" and W :: nat and msk :: "nat list"
  defines "n \<equiv> length data"
  defines "ranks \<equiv> map (rank_upto W msk (length data)) [0..<length data]"
  assumes "m \<le> n" and "rank_upto W msk n m \<le> length out"
  shows "length (fold (gpu_copy_to_dense W data msk ranks) [0..<m] out) = length out
       \<and> take (rank_upto W msk n m) (fold (gpu_copy_to_dense W data msk ranks) [0..<m] out)
           = map (\<lambda>i. data ! i) (filter (\<lambda>i. gpu_mask_get W msk i \<noteq> 0) [0..<m])
       \<and> drop (rank_upto W msk n m) (fold (gpu_copy_to_dense W data msk ranks) [0..<m] out)
           = drop (rank_upto W msk n m) out"
  using assms(3,4)
proof (induction m)
  case 0
  then show ?case by (simp add: rank_upto_def)
next
  case (Suc m)
  let ?prev = "fold (gpu_copy_to_dense W data msk ranks) [0..<m] out"
  have m: "m < n" using Suc.prems(1) by simp
  have le: "rank_upto W msk n m \<le> length out"
    using Suc.prems(2) by (simp add: rank_upto_Suc)
  have ih: "length ?prev = length out"
    "take (rank_upto W msk n m) ?prev
       = map (\<lambda>i. data ! i) (filter (\<lambda>i. gpu_mask_get W msk i \<noteq> 0) [0..<m])"
    "drop (rank_upto W msk n m) ?prev = drop (rank_upto W msk n m) out"
    using Suc.IH m le by simp_all
  have rk: "ranks ! m = rank_upto W msk n m"
    using m by (simp add: ranks_def n_def)
  show ?case
  proof (cases "gpu_mask_get W msk m = 0")
    case True
    then have "fold (gpu_copy_to_dense W data msk ranks) [0..<Suc m] out = ?prev"
      by (simp add: gpu_copy_to_dense_def)
    moreover have "rank_upto W msk n (Suc m) = rank_upto W msk n m"
      using True m by (simp add: rank_upto_Suc valid_bit_def)
    ultimately show ?thesis using ih True by simp
  next
    case False
    then have one: "gpu_mask_get W msk m = 1"
      using gpu_mask_get_cases [of W msk m] by simp
    have step: "gpu_copy_to_dense W data msk ranks m ?prev
                  = ?prev[rank_upto W msk n m := data ! m]"
      using False m by (simp add: gpu_copy_to_dense_def rk n_def)
    have rk': "rank_upto W msk n (Suc m) = Suc (rank_upto W msk n m)"
      using one m by (simp add: rank_upto_Suc valid_bit_def)
    have lt: "rank_upto W msk n m < length ?prev"
      using Suc.prems(2) ih(1) by (simp add: rk')
    have "take (Suc (rank_upto W msk n m)) (?prev[rank_upto W msk n m := data ! m])
            = take (rank_upto W msk n m) ?prev @ [data ! m]"
      using lt by (simp add: take_Suc_conv_app_nth)
    moreover have "drop (Suc (rank_upto W msk n m)) (?prev[rank_upto W msk n m := data ! m])
            = drop (Suc (rank_upto W msk n m)) out"
    proof -
      have "drop (Suc (rank_upto W msk n m)) (?prev[rank_upto W msk n m := data ! m])
              = drop 1 (drop (rank_upto W msk n m) ?prev)"
        by (simp add: drop_update_cancel)
      also have "\<dots> = drop 1 (drop (rank_upto W msk n m) out)"
        by (simp only: ih(3))
      finally show ?thesis by simp
    qed
    ultimately show ?thesis using ih False by (simp add: step rk')
  qed
qed

lemma copy_to_dense_last_valid:
  fixes data :: "'a list"
  assumes "data \<noteq> []" and "gpu_mask_get W msk (length data - 1) = 1"
  shows "copy_to_dense W pad shared0 slots0 out0 data msk None
           = Inr (length (dense_of W data msk), dense_of W data msk)"
proof -
  define n where "n = length data"
  define ranks where "ranks = map (rank_upto W msk (length data)) [0..<length data]"
  define sz where "sz = rank_upto W msk (length data) (length data - 1) + 1"
  have n: "0 < n" using assms(1) by (simp add: n_def)
  have "rank_upto W msk n (Suc (n - 1)) = rank_upto W msk n (n - 1) + valid_bit W msk n (n - 1)"
    by (rule rank_upto_Suc)
  then have total: "rank_upto W msk n n = sz"
    using n assms(2) by (simp add: valid_bit_def sz_def n_def)
  let ?out = "fold (gpu_copy_to_dense W data msk ranks) [0..<n] (device_array out0 sz)"
  have "length ?out = length (device_array out0 sz)
      \<and> take (rank_upto W msk n n) ?out
          = map (\<lambda>i. data ! i) (filter (\<lambda>i. gpu_mask_get W msk i \<noteq> 0) [0..<n])
      \<and> drop (rank_upto W msk n n) ?out = drop (rank_upto W msk n n) (device_array out0 sz)"
    unfolding ranks_def n_def
    by (rule gather_prefix) (simp_all add: total [unfolded n_def] device_array_def)
  then have len: "length ?out = sz" and tk: "take sz ?out = dense_of W data msk"
    by (simp_all add: total [unfolded n_def] device_array_def dense_of_def n_def)
  have "take sz ?out = ?out" using len by simp
  then have out: "?out = dense_of W data msk" using tk by simp
  have "copy_to_dense W pad shared0 slots0 out0 data msk None = Inr (sz, ?out)"
    using assms(1) by (simp add: copy_to_dense_eq ranks_def sz_def n_def)
  then show ?thesis using len out by simp
qed


lemma copy_to_dense_last_invalid:
  fixes data :: "'a list"
  assumes "data \<noteq> []" and "gpu_mask_get W msk (length data - 1) = 0"
  shows "copy_to_dense W pad shared0 slots0 out0 data msk None
           = Inr (length (dense_of W data msk) + 1,
                  dense_of W data msk @ [out0 (length (dense_of W data msk))])"
proof -
  define n where "n = length data"
  define ranks where "ranks = map (rank_upto W msk (length data)) [0..<length data]"
  define c where "c = rank_upto W msk (length data) (length data - 1)"
  have n: "0 < n" using assms(1) by (simp add: n_def)
  have "rank_upto W msk n (Suc (n - 1)) = rank_upto W msk n (n - 1) + valid_bit W msk n (n - 1)"
    by (rule rank_upto_Suc)
  then have total: "rank_upto W msk n n = c"
    using n assms(2) by (simp add: valid_bit_def c_def n_def)
  let ?out = "fold (gpu_copy_to_dense W data msk ranks) [0..<n] (device_array out0 (c + 1))"
  have "length ?out = length (device_array out0 (c + 1))
      \<and> take (rank_upto W msk n n) ?out
          = map (\<lambda>i. data ! i) (filter (\<lambda>i. gpu_mask_get W msk i \<noteq> 0) [0..<n])
      \<and> drop (rank_upto W msk n n) ?out = drop (rank_upto W msk n n) (device_array out0 (c + 1))"
    unfolding ranks_def n_def
    by (rule gather_prefix) (simp_all add: total [unfolded n_def] device_array_def)
  then have tk: "take c ?out = dense_of W data msk" and dr: "drop c ?out = [out0 c]"
    by (simp_all add: total [unfolded n_def] device_array_def dense_of_def n_def)
  have "?out = take c ?out @ drop c ?out" by simp
  then have out: "?out = dense_of W data msk @ [out0 c]" by (simp only: tk dr)
  have "length (take c ?out) = c" using dr by (metis length_take append_take_drop_id
        length_append length_Cons list.size(3) min_def add_Suc_right add_0_right le_add1 not_less_eq_eq)
  then have c: "c = length (dense_of W data msk)" by (simp only: tk)
  have "copy_to_dense W pad shared0 slots0 out0 data msk None = Inr (c + 1, ?out)"
    using assms(1) by (simp add: copy_to_dense_eq ranks_def c_def n_def)
  then show ?thesis using out c by simp
qed

lemma length_dense_of:
  "length (dense_of W data msk) = card {i. i < length data \<and> gpu_mask_get W msk i = 1}"
proof -
  have "{i. i < length [0..<length data] \<and> gpu_mask_get W msk ([0..<length data] ! i) \<noteq> 0}
          = {i. i < length data \<and> gpu_mask_get W msk i = 1}"
    by (auto simp: gpu_mask_get_bit)
  then show ?thesis
    unfolding dense_of_def length_map length_filter_conv_card by (rule arg_cong)
qed

section \<open>Reductions: facts\<close>

lemma copy_array_fresh:
  "copy_array uninit mem arr None = Inr (mem @ [mem ! arr], length mem)" if "arr < length mem"
  using that
  by (simp add: copy_array_def device_array_like_def copy_to_device_def device_array_def
        nth_append)

lemma run_reduction_copy:
  assumes "arr < length mem"
  shows "run_reduction (cuda_reduce binop consumed) uninit mem arr init False
           = Inr (mem @ [consumed (mem ! arr)], foldl binop init (mem ! arr))"
  using assms by (simp add: run_reduction_def copy_array_fresh cuda_reduce_def)

lemma run_reduction_inplace:
  "run_reduction (cuda_reduce binop consumed) uninit mem arr init True
           = Inr (mem[arr := consumed (mem ! arr)], foldl binop init (mem ! arr))"
  by (simp add: run_reduction_def cuda_reduce_def)

section \<open>Bounded unique values: facts\<close>

lemma vset_holds_card: "vset_holds vset sz S \<Longrightarrow> nat sz = card S"
  by (auto simp: vset_holds_def vset_elems_def dest: distinct_card)

lemma vset_holds_finite: "vset_holds vset sz S \<Longrightarrow> finite S"
  by (auto simp: vset_holds_def)

lemma gpu_unique_set_insert_holds:
  assumes h: "vset_holds vset sz S" and room: "card (insert val S) < MAX_FAST_UNIQUE_K"
  obtains vset' sz' where "gpu_unique_set_insert vset sz val = (vset', sz')"
    and "vset_holds vset' sz' (insert val S)"
proof (cases "val \<in> S")
  case True
  then have "list_ex (\<lambda>i. vset i = val) [0..<nat sz]"
    using h by (auto simp: vset_holds_def vset_elems_def list_ex_iff)
  then have "gpu_unique_set_insert vset sz val = (vset, sz)"
    by (simp add: gpu_unique_set_insert_def)
  moreover have "vset_holds vset sz (insert val S)"
    using h True by (simp add: insert_absorb)
  ultimately show ?thesis by (rule that)
next
  case False
  have sz: "0 \<le> sz" using h by (simp add: vset_holds_def)
  have fin: "finite S" using h by (rule vset_holds_finite)
  have "card (insert val S) = Suc (nat sz)"
    using False fin vset_holds_card [OF h] by simp
  then have lt: "sz < int MAX_FAST_UNIQUE_K" using room sz by linarith
  have nex: "\<not> list_ex (\<lambda>i. vset i = val) [0..<nat sz]"
    using h False by (auto simp: vset_holds_def vset_elems_def list_ex_iff)
  have eq: "gpu_unique_set_insert vset sz val = (vset(nat sz := val), sz + 1)"
    using nex lt sz by (auto simp: gpu_unique_set_insert_def Let_def)
  have up: "[0..<nat (sz + 1)] = [0..<nat sz] @ [nat sz]"
    using sz by (simp add: nat_add_distrib)
  have same: "map (vset(nat sz := val)) [0..<nat sz] = map vset [0..<nat sz]"
    by simp
  have "vset_holds (vset(nat sz := val)) (sz + 1) (insert val S)"
    using h False sz unfolding vset_holds_def vset_elems_def up
    by (auto simp: same)
  with eq show ?thesis by (rule that)
qed

lemma unique_k_insert_holds:
  assumes "vset_holds vset sz S" and "card (insert val S) < MAX_FAST_UNIQUE_K"
  obtains vset' sz' where "unique_k_insert sm val (vset, sz) = (vset', sz')"
    and "vset_holds vset' sz' (insert val S)"
proof -
  obtain vset' sz' where ins: "gpu_unique_set_insert vset sz val = (vset', sz')"
    and h': "vset_holds vset' sz' (insert val S)"
    using assms by (rule gpu_unique_set_insert_holds)
  have "0 \<le> sz'" using h' by (simp add: vset_holds_def)
  then have "unique_k_insert sm val (vset, sz) = (vset', sz')"
    by (simp add: unique_k_insert_def ins)
  then show ?thesis using h' by (rule that)
qed

lemma fold_unique_k_insert_holds:
  assumes "vset_holds vset sz S" and "card (S \<union> set vals) < MAX_FAST_UNIQUE_K"
  obtains vset' sz' where "fold (unique_k_insert sm) vals (vset, sz) = (vset', sz')"
    and "vset_holds vset' sz' (S \<union> set vals)"
  using assms
proof (induction vals arbitrary: vset sz S thesis)
  case Nil
  then show ?case by simp
next
  case (Cons v vals)
  have fin: "finite (S \<union> set (v # vals))"
    using Cons.prems(2) vset_holds_finite by auto
  have "card (insert v S) \<le> card (S \<union> set (v # vals))"
    using fin by (intro card_mono) auto
  then have room: "card (insert v S) < MAX_FAST_UNIQUE_K"
    using Cons.prems(3) by simp
  obtain vset1 sz1 where s1: "unique_k_insert sm v (vset, sz) = (vset1, sz1)"
    and h1: "vset_holds vset1 sz1 (insert v S)"
    using Cons.prems(2) room by (rule unique_k_insert_holds)
  have room': "card (insert v S \<union> set vals) < MAX_FAST_UNIQUE_K"
    using Cons.prems(3) by simp
  obtain vset' sz' where s': "fold (unique_k_insert sm) vals (vset1, sz1) = (vset', sz')"
    and h': "vset_holds vset' sz' (insert v S \<union> set vals)"
    using h1 room' by (rule Cons.IH [rotated])
  show ?case
    using s1 s' h' by (intro Cons.prems(1) [of vset' sz']) simp_all
qed

lemma load_chunk_nth:
  assumes "i < valid_load" and "valid_load \<le> blksz"
  shows "fold (\<lambda>tid sl. let pos = base + tid in if tid < valid_load then sl(tid := arr ! pos) else sl)
           [0..<blksz] sl0 i = arr ! (base + i)"
proof -
  have "fold (\<lambda>tid sl. let pos = base + tid in if tid < valid_load then sl(tid := arr ! pos) else sl)
           [0..<m] sl0 i = (if i < m then arr ! (base + i) else sl0 i)" for m
    using assms(1) by (induction m) (auto simp: Let_def)
  then show ?thesis using assms by simp
qed

lemma unique_k_chunk_holds:
  fixes arr :: "'a list" and blksz :: nat and sm :: int
  assumes h: "vset_holds (u_vset st) (u_vset_size st) (set (take (u_base st) arr))"
    and room: "card (set arr) < MAX_FAST_UNIQUE_K"
    and base: "u_base st < length arr"
  defines "st' \<equiv> unique_k_chunk blksz arr sm st"
  shows "vset_holds (u_vset st') (u_vset_size st') (set (take (u_base st') arr))"
proof -
  define valid_load where "valid_load = min blksz (length arr - u_base st)"
  define loaded where "loaded =
    fold (\<lambda>tid sl. let pos = u_base st + tid in if tid < valid_load then sl(tid := arr ! pos) else sl)
      [0..<blksz] (u_share_loaded st)"
  have loaded: "loaded i = arr ! (u_base st + i)" if "i < valid_load" for i
    unfolding loaded_def using that by (intro load_chunk_nth) (simp_all add: valid_load_def)
  define vals where "vals = map loaded [0..<valid_load]"
  have vals: "vals = take blksz (drop (u_base st) arr)"
    unfolding vals_def
  proof (intro nth_equalityI)
    show "length (map loaded [0..<valid_load]) = length (take blksz (drop (u_base st) arr))"
      by (simp add: valid_load_def min.commute)
  next
    fix i assume "i < length (map loaded [0..<valid_load])"
    then have i: "i < valid_load" by simp
    then have "i < blksz" "u_base st + i < length arr"
      using base by (auto simp: valid_load_def)
    then show "map loaded [0..<valid_load] ! i = take blksz (drop (u_base st) arr) ! i"
      using i by (simp add: loaded)
  qed
  have split: "take (u_base st + blksz) arr = take (u_base st) arr @ vals"
    by (simp add: vals take_add)
  have "set (take (u_base st) arr) \<union> set vals \<subseteq> set arr"
    using set_take_subset [of "u_base st + blksz" arr] by (simp add: split)
  then have "card (set (take (u_base st) arr) \<union> set vals) \<le> card (set arr)"
    by (intro card_mono) simp_all
  then have room': "card (set (take (u_base st) arr) \<union> set vals) < MAX_FAST_UNIQUE_K"
    using room by simp
  obtain vset' sz' where f: "fold (unique_k_insert sm) vals (u_vset st, u_vset_size st) = (vset', sz')"
    and h': "vset_holds vset' sz' (set (take (u_base st) arr) \<union> set vals)"
    using h room' by (rule fold_unique_k_insert_holds)
  have f': "fold (\<lambda>i. unique_k_insert sm (loaded i)) [0..<valid_load] (u_vset st, u_vset_size st)
              = (vset', sz')"
    using f by (simp add: vals_def fold_map comp_def)
  have st': "st' = \<lparr>u_vset = vset', u_share_loaded = loaded, u_vset_size = sz',
                    u_base = u_base st + blksz\<rparr>"
    unfolding st'_def unique_k_chunk_def loaded_def valid_load_def Let_def
    by (simp only: f' [unfolded loaded_def valid_load_def Let_def] prod.case)
  show ?thesis using h' by (simp add: st' split)
qed

lemma unique_k_loop_holds:
  "vset_holds (u_vset st) (u_vset_size st) (set (take (u_base st) arr)) \<Longrightarrow>
   card (set arr) < MAX_FAST_UNIQUE_K \<Longrightarrow> 0 < blksz \<Longrightarrow>
   vset_holds (u_vset (unique_k_loop blksz arr sm st)) (u_vset_size (unique_k_loop blksz arr sm st))
       (set (take (u_base (unique_k_loop blksz arr sm st)) arr))
   \<and> \<not> (u_vset_size (unique_k_loop blksz arr sm st) < sm
          \<and> u_base (unique_k_loop blksz arr sm st) < length arr)"
proof (induction blksz arr sm st rule: unique_k_loop.induct)
  case (1 blksz arr sm st)
  show ?case
  proof (cases "u_vset_size st < sm \<and> u_base st < length arr")
    case True
    have unf: "unique_k_loop blksz arr sm st
                 = unique_k_loop blksz arr sm (unique_k_chunk blksz arr sm st)"
      using True "1.prems"(3) by (subst unique_k_loop.simps) simp
    have h': "vset_holds (u_vset (unique_k_chunk blksz arr sm st))
                (u_vset_size (unique_k_chunk blksz arr sm st))
                (set (take (u_base (unique_k_chunk blksz arr sm st)) arr))"
      using "1.prems"(1,2) True by (intro unique_k_chunk_holds) simp_all
    show ?thesis
      unfolding unf using True "1.prems"(2,3) h' by (intro "1.IH") simp_all
  next
    case False
    then have "unique_k_loop blksz arr sm st = st"
      by (subst unique_k_loop.simps) auto
    then show ?thesis using "1.prems"(1) False by simp
  qed
qed

lemma range3_member:
  "0 < step \<Longrightarrow> start \<le> i \<Longrightarrow> i < stop \<Longrightarrow> step dvd (i - start) \<Longrightarrow>
   i \<in> set (range3 start stop step)"
proof (induction start stop step rule: range3.induct)
  case (1 start stop step)
  have lt: "start < stop" using "1.prems" by simp
  have unf: "range3 start stop step = start # range3 (start + step) stop step"
    using lt "1.prems"(1) by (subst range3.simps) simp
  show ?case
  proof (cases "i = start")
    case True
    then show ?thesis by (simp add: unf)
  next
    case False
    then have pos: "0 < i - start" using "1.prems"(2) by simp
    then have ge: "step \<le> i - start"
      using "1.prems"(4) by (intro dvd_imp_le) simp_all
    have "step dvd (i - start - step)"
      using "1.prems"(4) dvd_refl by (rule dvd_diff_nat)
    then have "step dvd (i - (start + step))"
      by (simp only: diff_diff_left)
    then have "i \<in> set (range3 (start + step) stop step)"
      using lt "1.prems"(1,3) ge by (intro "1.IH") simp_all
    then show ?thesis by (simp add: unf)
  qed
qed

lemma write_cell_own_cell:
  "(\<lambda>i out. out[i := f i]) = (\<lambda>t xs. if t < length xs then xs[t := f t] else xs)"
  by (intro ext) (simp add: list_update_beyond)

lemma copy_out_length:
  "length (fold (\<lambda>tid out. fold (\<lambda>i out. out[i := f i]) (L tid) out) tids out) = length out"
  by (induction tids arbitrary: out) (simp_all add: write_cell_own_cell fold_cell_length)

lemma copy_out_nth:
  "i < length out \<Longrightarrow>
   fold (\<lambda>tid out. fold (\<lambda>i out. out[i := f i]) (L tid) out) tids out ! i
     = (if \<exists>t \<in> set tids. i \<in> set (L t) then f i else out ! i)"
proof (induction tids arbitrary: out)
  case Nil
  then show ?case by simp
next
  case (Cons t tids)
  let ?out1 = "fold (\<lambda>i out. out[i := f i]) (L t) out"
  have len: "i < length ?out1"
    using Cons.prems by (simp add: write_cell_own_cell fold_cell_length)
  have one: "?out1 ! i = (if i \<in> set (L t) then f i else out ! i)"
    using Cons.prems by (simp add: write_cell_own_cell fold_cell_nth)
  show ?case
    using Cons.IH [OF len] one by auto
qed

lemma copy_out_take:
  assumes "n \<le> length out" and "0 < blksz"
  shows "take n (fold (\<lambda>tid out. fold (\<lambda>i out. out[i := f i]) (range3 tid n blksz) out)
                   [0..<blksz] out) = map f [0..<n]"
proof (intro nth_equalityI)
  show "length (take n (fold (\<lambda>tid out. fold (\<lambda>i out. out[i := f i]) (range3 tid n blksz) out)
                   [0..<blksz] out)) = length (map f [0..<n])"
    using assms(1) by (simp add: copy_out_length)
next
  fix i
  assume "i < length (take n (fold (\<lambda>tid out. fold (\<lambda>i out. out[i := f i])
                      (range3 tid n blksz) out) [0..<blksz] out))"
  then have i: "i < n" by simp
  have "i mod blksz \<le> i" by simp
  moreover have "blksz dvd (i - i mod blksz)" by (simp add: dvd_minus_mod)
  ultimately have "i \<in> set (range3 (i mod blksz) n blksz)"
    using assms(2) i by (intro range3_member) simp_all
  moreover have "i mod blksz \<in> set [0..<blksz]" using assms(2) by simp
  ultimately have "\<exists>t \<in> set [0..<blksz]. i \<in> set (range3 t n blksz)" by blast
  then show "take n (fold (\<lambda>tid out. fold (\<lambda>i out. out[i := f i]) (range3 tid n blksz) out)
                   [0..<blksz] out) ! i = map f [0..<n] ! i"
    using i assms(1) by (simp add: copy_out_nth)
qed

lemma UniqueK_run_done:
  fixes arr :: "'a list" and k :: int and vset0 loaded0 :: "nat \<Rightarrow> 'a"
  defines "st' \<equiv> unique_k_loop 64 arr (min k (int MAX_FAST_UNIQUE_K))
                    \<lparr>u_vset = vset0, u_share_loaded = loaded0, u_vset_size = 0, u_base = 0\<rparr>"
  assumes k: "k < int MAX_FAST_UNIQUE_K"
    and lo: "0 \<le> u_vset_size st'" and hi: "u_vset_size st' \<le> k"
    and len: "nat (u_vset_size st') \<le> length arr"
  shows "UniqueK_run vset0 loaded0 out0 arr k = Inr (vset_elems (u_vset st') (u_vset_size st'))"
proof -
  let ?out = "device_array out0 (length arr)"
  let ?out' = "fold (\<lambda>tid out. fold (\<lambda>i out. out[i := u_vset st' i])
                 (range3 tid (nat (u_vset_size st')) 64) out) [0..<64] ?out"
  have sm: "min k (int MAX_FAST_UNIQUE_K) = k" using k by simp
  have g: "gpu_unique_k 64 vset0 loaded0 arr k ?out = (?out', u_vset_size st')"
    unfolding gpu_unique_k_def Let_def st'_def [symmetric] using hi by (simp add: sm)
  have "take (nat (u_vset_size st')) ?out' = map (u_vset st') [0..<nat (u_vset_size st')]"
    using len by (intro copy_out_take) (simp_all add: device_array_def)
  then show ?thesis
    using k lo by (simp add: UniqueK_run_def g vset_elems_def)
qed

lemma unique_k_loop_final:
  fixes arr :: "'a list" and sm :: int and vset0 loaded0 :: "nat \<Rightarrow> 'a"
  defines "st' \<equiv> unique_k_loop 64 arr sm
                    \<lparr>u_vset = vset0, u_share_loaded = loaded0, u_vset_size = 0, u_base = 0\<rparr>"
  assumes "card (set arr) < MAX_FAST_UNIQUE_K"
  shows "vset_holds (u_vset st') (u_vset_size st') (set (take (u_base st') arr))"
    and "\<not> (u_vset_size st' < sm \<and> u_base st' < length arr)"
proof -
  let ?st = "\<lparr>u_vset = vset0, u_share_loaded = loaded0, u_vset_size = 0, u_base = 0\<rparr>"
  have "vset_holds (u_vset ?st) (u_vset_size ?st) (set (take (u_base ?st) arr))"
    by (simp add: vset_holds_def vset_elems_def)
  then have both: "vset_holds (u_vset st') (u_vset_size st') (set (take (u_base st') arr))
      \<and> \<not> (u_vset_size st' < sm \<and> u_base st' < length arr)"
    unfolding st'_def using assms(2) by (intro unique_k_loop_holds) simp_all
  show "vset_holds (u_vset st') (u_vset_size st') (set (take (u_base st') arr))"
    using both by simp
  show "\<not> (u_vset_size st' < sm \<and> u_base st' < length arr)"
    using both by simp
qed

lemma max_fast_unique_k_eq: "int MAX_FAST_UNIQUE_K = 2048"
  by (simp add: MAX_FAST_UNIQUE_K_def)

lemma unique_k_loop_empty:
  "unique_k_loop blksz [] sm st = st"
  by (subst unique_k_loop.simps) simp

lemma fold_skip: "fold (\<lambda>t. id) ts s = s"
  by (induction ts) simp_all

lemma range3_empty: "range3 start 0 step = []"
  by (subst range3.simps) simp

lemma compute_unique_k_capability:
  "int MAX_FAST_UNIQUE_K \<le> k \<Longrightarrow>
   compute_unique_k vset0 loaded0 out0 arr k = Inl NotImplementedError"
  by (simp add: compute_unique_k_def UniqueK_run_def)

section \<open>Stride masks\<close>

text \<open>
  Claim C7. For every stride \<open>S \<ge> 1\<close>, after \<^verbatim>\<open>set_mask_from_stride\<close> has run on a
  mask that covers \<open>N\<close> elements, bit \<open>i\<close> of the mask is set if and only if
  \<open>i mod S = 0\<close>, for every bit position of the mask, and the number of set bits
  among the first \<open>N\<close> positions is the ceiling of \<open>N / S\<close>.
\<close>

theorem set_mask_from_stride_bits:
  assumes "0 < W" and "1 \<le> S" and "N \<le> W * length msk"
  shows "(\<forall>i < W * length msk.
            gpu_mask_get W (set_mask_from_stride W pad msk S) i = 1 \<longleftrightarrow> int i mod S = 0)
       \<and> int (length (filter (\<lambda>i. gpu_mask_get W (set_mask_from_stride W pad msk S) i = 1)
                         [0..<N]))
           = \<lceil>real N / real_of_int S\<rceil>"
proof -
  let ?m = "set_mask_from_stride W pad msk S"
  have bits: "gpu_mask_get W ?m i = 1 \<longleftrightarrow> int i mod S = 0" if "i < W * length msk" for i
    using set_mask_from_stride_get [OF assms(1) that, of pad S] by simp
  have pt: "(gpu_mask_get W ?m i = 1) = (i mod nat S = 0)" if "i < N" for i
    using bits [of i] that assms(2,3) mod_int_nat [of S i] by simp
  have "filter (\<lambda>i. gpu_mask_get W ?m i = 1) [0..<N] = filter (\<lambda>i. i mod nat S = 0) [0..<N]"
    using pt by (intro filter_cong refl) auto
  then have "length (filter (\<lambda>i. gpu_mask_get W ?m i = 1) [0..<N]) = (N + nat S - 1) div nat S"
    using count_multiples [of "nat S" N] assms(2) by simp
  moreover have "\<lceil>real N / real_of_int S\<rceil> = int ((N + nat S - 1) div nat S)"
    using ceil_div_nat [of "nat S" N] assms(2) by simp
  ultimately show ?thesis using bits by simp
qed

theorem set_mask_from_stride_bits_witness:
  "(0::nat) < 8 \<and> (1::int) \<le> 3 \<and> (10::nat) \<le> 8 * length [255, 255 :: nat]
   \<and> (gpu_mask_get 8 (set_mask_from_stride 8 3 [255, 255] 3) 9 = 1 \<longleftrightarrow> int 9 mod 3 = 0)
   \<and> int (length (filter (\<lambda>i. gpu_mask_get 8 (set_mask_from_stride 8 3 [255, 255] 3) i = 1)
                      [0..<10]))
       = \<lceil>real 10 / real_of_int 3\<rceil>"
  using set_mask_from_stride_bits [of 8 3 10 "[255, 255]" 3]
  by simp

section \<open>Filling the invalid positions\<close>

text \<open>
  Claim C8. For every data array, mask covering it and fill value \<open>v\<close>, the result of
  \<^verbatim>\<open>fillna\<close> has the length of the data, equals the data at every position whose
  validity bit is set, and equals \<open>v\<close> at every position whose validity bit is unset.
\<close>

theorem fillna_correct:
  assumes "length data \<le> W * length msk"
  shows "length (fillna W pad data msk v) = length data
       \<and> (\<forall>i < length data.
            (gpu_mask_get W msk i = 1 \<longrightarrow> fillna W pad data msk v ! i = data ! i)
          \<and> (gpu_mask_get W msk i = 0 \<longrightarrow> fillna W pad data msk v ! i = v))"
  by (simp add: fillna_length fillna_nth)

theorem fillna_correct_witness:
  "length [10, 20 :: int] \<le> 8 * length [1 :: nat]
   \<and> fillna 8 2 [10, 20 :: int] [1] 0 = [10, 0]"
proof -
  have cover: "length [10, 20 :: int] \<le> 8 * length [1 :: nat]" by simp
  have b0: "gpu_mask_get 8 [1] 0 = 1" by (simp add: gpu_mask_get_def)
  have b1: "gpu_mask_get 8 [1] 1 = 0" by (simp add: gpu_mask_get_def)
  note t = fillna_correct [OF cover, of 2 0]
  have len: "length (fillna 8 2 [10, 20 :: int] [1] 0) = 2" using t by simp
  have "(0::nat) < length [10, 20 :: int]" by simp
  with t b0 have n0: "fillna 8 2 [10, 20 :: int] [1] 0 ! 0 = 10" by fastforce
  have "(1::nat) < length [10, 20 :: int]" by simp
  with t b1 have n1: "fillna 8 2 [10, 20 :: int] [1] 0 ! 1 = 0" by fastforce
  have "fillna 8 2 [10, 20 :: int] [1] 0 = [10, 0]"
  proof (rule nth_equalityI)
    show "length (fillna 8 2 [10, 20 :: int] [1] 0) = length [10, 0 :: int]" using len by simp
  next
    fix i assume "i < length (fillna 8 2 [10, 20 :: int] [1] 0)"
    then have "i = 0 \<or> i = 1" using len by auto
    then show "fillna 8 2 [10, 20 :: int] [1] 0 ! i = [10, 0] ! i" using n0 n1 by auto
  qed
  with cover show ?thesis by simp
qed

section \<open>Rank assignment\<close>

text \<open>
  Claim C6. After the rank-assignment kernel has run (one block of 32 threads)
  on a slot array of \<open>N\<close> cells and a mask that covers them, the slot of every
  element \<open>i < N\<close>, valid or not, is the number of indices \<open>j < i\<close> whose validity
  bit is set; hence the slot array is monotonically non-decreasing.
\<close>

theorem gpu_mask_assign_slot_ranks:
  assumes "length slots0 = N" and "N \<le> W * length msk"
  shows "(\<forall>i<N. gpu_mask_assign_slot W 32 shared0 msk slots0 ! i
                 = card {j. j < i \<and> gpu_mask_get W msk j = 1})
       \<and> (\<forall>i j. i \<le> j \<and> j < N \<longrightarrow>
             gpu_mask_assign_slot W 32 shared0 msk slots0 ! i
               \<le> gpu_mask_assign_slot W 32 shared0 msk slots0 ! j)"
proof -
  let ?s = "gpu_mask_assign_slot W 32 shared0 msk slots0"
  have rk: "?s ! i = card {j. j < i \<and> gpu_mask_get W msk j = 1}" if "i < N" for i
    using that by (simp add: gpu_mask_assign_slot_eq [OF assms(1)] rank_upto_count)
  have mono: "?s ! i \<le> ?s ! j" if "i \<le> j" "j < N" for i j
  proof -
    have "{k. k < i \<and> gpu_mask_get W msk k = 1} \<subseteq> {k. k < j \<and> gpu_mask_get W msk k = 1}"
      using that(1) by auto
    then have "card {k. k < i \<and> gpu_mask_get W msk k = 1}
                 \<le> card {k. k < j \<and> gpu_mask_get W msk k = 1}"
      by (intro card_mono) simp_all
    then show ?thesis using that rk [of i] rk [of j] by simp
  qed
  show ?thesis using rk mono by blast
qed

theorem gpu_mask_assign_slot_ranks_witness:
  "length [0, 0, 0 :: nat] = 3 \<and> (3::nat) \<le> 8 * length [5 :: nat]
   \<and> gpu_mask_assign_slot 8 32 (\<lambda>_. 0) [5] [0, 0, 0] ! 2
       = card {j. j < 2 \<and> gpu_mask_get 8 [5] j = 1}
   \<and> gpu_mask_assign_slot 8 32 (\<lambda>_. 0) [5] [0, 0, 0] ! 0
       \<le> gpu_mask_assign_slot 8 32 (\<lambda>_. 0) [5] [0, 0, 0] ! 2"
proof -
  have len: "length [0, 0, 0 :: nat] = 3" by simp
  have cover: "(3::nat) \<le> 8 * length [5 :: nat]" by simp
  note t = gpu_mask_assign_slot_ranks [OF len cover, of "\<lambda>_. 0"]
  have "(2::nat) < 3" and "(0::nat) \<le> 2 \<and> (2::nat) < 3" by simp_all
  with t len cover show ?thesis by blast
qed

section \<open>Compaction: the count and the size check\<close>

text \<open>
  Claim C1 (the code departs from it). \<^verbatim>\<open>copy_to_dense\<close> takes the count to be the
  last slot number plus one, which is one too many whenever the last element is
  not valid. With validity bits 1, 0 over the data 10, 20 it returns the count 2
  and a dense array whose second cell was never written; with an all-invalid
  mask it returns the count 1 and one unwritten cell, not 0 and the empty array.
\<close>

theorem copy_to_dense_count_off_by_one:
  "copy_to_dense 8 pad shared0 slots0 out0 [10, 20 :: int] [1] None = Inr (2, [10, out0 1])
   \<and> copy_to_dense 8 pad shared0 slots0 out0 [10, 20 :: int] [0] None = Inr (1, [out0 0])"
  by (simp add: copy_to_dense_eq rank_upto_def valid_bit_def gpu_mask_get_def
        gpu_copy_to_dense_def device_array_def upt_conv_Cons)

text \<open>
  Claim C2 (the code departs from it). The size check is \<^verbatim>\<open>sz >= out.size\<close>: a
  supplied buffer whose capacity equals the count is refused. Three valid
  elements and a buffer of three cells give the "output array too small" error.
\<close>

theorem copy_to_dense_rejects_exact_fit:
  "copy_to_dense 8 pad shared0 slots0 out0 [10, 20, 30 :: int] [7] (Some [0, 0, 0])
     = Inl ValueError"
  by (simp add: copy_to_dense_eq rank_upto_def valid_bit_def gpu_mask_get_def upt_conv_Cons)

section \<open>Reductions\<close>

text \<open>
  Claim C9. For every input buffer, \<^verbatim>\<open>compute_mean\<close> and the reductions
  \<^verbatim>\<open>compute_sum\<close>, \<^verbatim>\<open>compute_min\<close>, \<^verbatim>\<open>compute_max\<close> called without the
  in-place flag leave the input as it was: the memory after the call is the
  memory before it followed by one scratch buffer, a copy of the input that the
  reduction has consumed; every buffer that existed before is unchanged.
\<close>

theorem reductions_keep_input:
  assumes "arr < length mem"
  shows "(\<exists>r. compute_mean consumed uninit mem arr False = Inr (mem @ [consumed (mem ! arr)], r))
       \<and> (\<exists>r. compute_sum consumed uninit mem arr False = Inr (mem @ [consumed (mem ! arr)], r))
       \<and> (\<exists>r. compute_min consumed uninit mem arr False = Inr (mem @ [consumed (mem ! arr)], r))
       \<and> (\<exists>r. compute_max consumed uninit mem arr False = Inr (mem @ [consumed (mem ! arr)], r))
       \<and> (\<forall>p < length mem. (mem @ [consumed (mem ! arr)]) ! p = mem ! p)"
  using assms
  by (simp add: compute_mean_def compute_sum_def compute_min_def compute_max_def
        gpu_sum_def gpu_min_def gpu_max_def run_reduction_copy nth_append)

theorem reductions_keep_input_witness:
  "(0::nat) < length [[1, 2, 3 :: real]]
   \<and> (\<exists>r. compute_mean (map (\<lambda>_. 0)) (\<lambda>_. 7) [[1, 2, 3 :: real]] 0 False
            = Inr ([[1, 2, 3], [0, 0, 0]], r))
   \<and> (\<exists>r. compute_min (map (\<lambda>_. 0)) (\<lambda>_. 7) [[1, 2, 3 :: real]] 0 False
            = Inr ([[1, 2, 3], [0, 0, 0]], r))"
  using reductions_keep_input [of 0 "[[1, 2, 3 :: real]]" "map (\<lambda>_. 0)" "\<lambda>_. 7"]
  by simp

text \<open>
  Claim C4 (the code departs from it). The sum of a one-element array is its
  element, but \<^verbatim>\<open>compute_min\<close> and \<^verbatim>\<open>compute_max\<close> reduce with the initial value
  0, which takes part in the result: the minimum of the array 5 comes out as 0,
  and so does the maximum of the array -5.
\<close>

theorem min_max_of_singleton:
  "compute_sum consumed uninit [[5 :: int]] 0 False = Inr ([[5], consumed [5]], 5)
   \<and> compute_min consumed uninit [[5 :: int]] 0 False = Inr ([[5], consumed [5]], 0)
   \<and> compute_max consumed uninit [[- 5 :: int]] 0 False = Inr ([[- 5], consumed [- 5]], 0)"
  by (simp add: compute_sum_def compute_min_def compute_max_def
        gpu_sum_def gpu_min_def gpu_max_def run_reduction_copy)

section \<open>Unique values\<close>

text \<open>
  Claim C5. For every array whose number \<open>u\<close> of distinct values is at most \<open>k\<close>,
  with \<open>0 < k < MAX_FAST_UNIQUE_K\<close>, \<^verbatim>\<open>compute_unique_k\<close> returns, without error,
  exactly \<open>u\<close> values that are pairwise distinct and are the distinct values of
  the array: each occurs in the array and each value of the array is among them.
\<close>

theorem compute_unique_k_complete:
  assumes "0 < k" and "k < int MAX_FAST_UNIQUE_K" and "int (card (set arr)) \<le> k"
  shows "\<exists>res. compute_unique_k vset0 loaded0 out0 arr k = Inr res
            \<and> length res = card (set arr) \<and> distinct res \<and> set res = set arr"
proof -
  define st' where "st' = unique_k_loop 64 arr (min k (int MAX_FAST_UNIQUE_K))
      \<lparr>u_vset = vset0, u_share_loaded = loaded0, u_vset_size = 0, u_base = 0\<rparr>"
  have sm: "min k (int MAX_FAST_UNIQUE_K) = k" using assms(2) by simp
  have room: "card (set arr) < MAX_FAST_UNIQUE_K" using assms(2,3) by linarith
  note fin = unique_k_loop_final [OF room, of "min k (int MAX_FAST_UNIQUE_K)" vset0 loaded0,
      folded st'_def, unfolded sm]
  let ?S = "set (take (u_base st') arr)"
  have sub: "?S \<subseteq> set arr" by (rule set_take_subset)
  have card: "nat (u_vset_size st') = card ?S" using fin(1) by (rule vset_holds_card)
  have lo: "0 \<le> u_vset_size st'" using fin(1) by (simp add: vset_holds_def)
  have le: "card ?S \<le> card (set arr)" using sub by (intro card_mono) simp_all
  have S: "?S = set arr"
  proof (cases "u_base st' < length arr")
    case False
    then show ?thesis by simp
  next
    case True
    then have "k \<le> u_vset_size st'" using fin(2) by simp
    then have "card (set arr) \<le> card ?S" using assms(3) card lo by linarith
    then have "card ?S = card (set arr)" using le by simp
    then show ?thesis using sub by (intro card_subset_eq) simp_all
  qed
  have "nat (u_vset_size st') = card (set arr)" using card S by simp
  then have hi: "u_vset_size st' \<le> k" using assms(3) lo by linarith
  have len: "nat (u_vset_size st') \<le> length arr"
    using card S by (simp add: card_length)
  have run: "compute_unique_k vset0 loaded0 out0 arr k
               = Inr (vset_elems (u_vset st') (u_vset_size st'))"
    unfolding compute_unique_k_def st'_def
    using assms(2) lo hi len unfolding st'_def by (rule UniqueK_run_done)
  have "length (vset_elems (u_vset st') (u_vset_size st')) = card (set arr)"
    using card S by (simp add: vset_elems_def)
  moreover have "distinct (vset_elems (u_vset st') (u_vset_size st'))"
    using fin(1) by (simp add: vset_holds_def)
  moreover have "set (vset_elems (u_vset st') (u_vset_size st')) = set arr"
    using fin(1) S by (simp add: vset_holds_def)
  ultimately show ?thesis using run by simp
qed

theorem compute_unique_k_complete_witness:
  "(0::int) < 5 \<and> (5::int) < int MAX_FAST_UNIQUE_K \<and> int (card (set [1, 1, 1, 1 :: int])) \<le> 5
   \<and> compute_unique_k (\<lambda>_. 0) (\<lambda>_. 0) (\<lambda>_. 0) [1, 1, 1, 1 :: int] 5 = Inr [1]"
proof -
  have h1: "(0::int) < 5" by simp
  have h2: "(5::int) < int MAX_FAST_UNIQUE_K" by (simp add: max_fast_unique_k_eq)
  have h3: "int (card (set [1, 1, 1, 1 :: int])) \<le> 5" by simp
  obtain res where run: "compute_unique_k (\<lambda>_. 0) (\<lambda>_. 0) (\<lambda>_. 0) [1, 1, 1, 1 :: int] 5 = Inr res"
    and len: "length res = card (set [1, 1, 1, 1 :: int])" and set: "set res = set [1, 1, 1, 1 :: int]"
    using compute_unique_k_complete [OF h1 h2 h3, of "\<lambda>_. 0" "\<lambda>_. 0" "\<lambda>_. 0"] by blast
  have "length res = 1" using len by simp
  then obtain x where x: "res = [x]" by (cases res) auto
  then have "x = 1" using set by auto
  then show ?thesis using h1 h2 h3 run x by simp
qed

text \<open>
  Claim C10. For the empty array and every \<open>k\<close> with \<open>0 < k < MAX_FAST_UNIQUE_K\<close>
  the kernel leaves the size of the set at 0 and writes nothing, and
  \<^verbatim>\<open>compute_unique_k\<close> returns the empty result without error.
\<close>

theorem compute_unique_k_empty:
  assumes "0 < k" and "k < int MAX_FAST_UNIQUE_K"
  shows "gpu_unique_k 64 vset0 loaded0 [] k [] = ([], 0)
       \<and> compute_unique_k vset0 loaded0 out0 [] k = Inr []"
proof -
  have g: "gpu_unique_k 64 vset0 loaded0 [] k [] = ([], 0)"
    using assms by (simp add: gpu_unique_k_def unique_k_loop_empty range3_empty fold_skip)
  then show ?thesis
    using assms by (simp add: compute_unique_k_def UniqueK_run_def device_array_def)
qed

theorem compute_unique_k_empty_witness:
  "(0::int) < 3 \<and> (3::int) < int MAX_FAST_UNIQUE_K
   \<and> gpu_unique_k 64 (\<lambda>_. 0 :: int) (\<lambda>_. 0) [] 3 [] = ([], 0)
   \<and> compute_unique_k (\<lambda>_. 0 :: int) (\<lambda>_. 0) (\<lambda>_. 0) [] 3 = Inr []"
  using compute_unique_k_empty [of 3 "\<lambda>_. 0 :: int" "\<lambda>_. 0" "\<lambda>_. 0"]
  by (simp add: max_fast_unique_k_eq)

text \<open>
  Claim C3 (the code departs from it). The loop of the kernel stops as soon as
  the set holds \<open>k\<close> values, also when input remains; overflow is seen only when
  it happens inside a chunk of 64 elements. For \<open>k = 1\<close> and 64 elements equal to
  1 followed by one element 2, the array has two distinct values, more than
  \<open>k\<close>, and the result is the single value 1, with no error.
\<close>

theorem compute_unique_k_misses_overflow:
  "card (set (replicate 64 1 @ [2 :: int])) = 2
   \<and> compute_unique_k vset0 loaded0 out0 (replicate 64 1 @ [2 :: int]) 1 = Inr [1]"
proof -
  let ?arr = "replicate 64 1 @ [2 :: int]"
  let ?st0 = "\<lparr>u_vset = vset0, u_share_loaded = loaded0, u_vset_size = 0, u_base = 0\<rparr>"
  define st1 where "st1 = unique_k_chunk 64 ?arr 1 ?st0"
  have sm: "min 1 (int MAX_FAST_UNIQUE_K) = 1" by (simp add: max_fast_unique_k_eq)
  have cardarr: "card (set ?arr) = 2" by simp
  have room: "card (set ?arr) < MAX_FAST_UNIQUE_K"
    unfolding cardarr by (simp add: MAX_FAST_UNIQUE_K_def)
  have h0: "vset_holds (u_vset ?st0) (u_vset_size ?st0) (set (take (u_base ?st0) ?arr))"
    by (simp add: vset_holds_def vset_elems_def)
  have "vset_holds (u_vset st1) (u_vset_size st1) (set (take (u_base st1) ?arr))"
    unfolding st1_def using h0 room by (rule unique_k_chunk_holds) simp
  moreover have base1: "u_base st1 = 64" by (simp add: st1_def u_base_chunk)
  ultimately have h1: "vset_holds (u_vset st1) (u_vset_size st1) {1}" by simp
  have "nat (u_vset_size st1) = card {1 :: int}" using h1 by (rule vset_holds_card)
  moreover have "0 \<le> u_vset_size st1" using h1 by (simp add: vset_holds_def)
  ultimately have sz1: "u_vset_size st1 = 1" by simp
  have "set (vset_elems (u_vset st1) 1) = {1}" using h1 by (simp add: vset_holds_def sz1)
  then have v0: "u_vset st1 0 = 1" by (simp add: vset_elems_def)
  have "unique_k_loop 64 ?arr 1 ?st0 = unique_k_loop 64 ?arr 1 st1"
    by (subst unique_k_loop.simps) (simp add: st1_def)
  also have "\<dots> = st1"
    by (subst unique_k_loop.simps) (simp add: sz1)
  finally have loop1: "unique_k_loop 64 ?arr 1 ?st0 = st1" .
  then have loop: "unique_k_loop 64 ?arr (min 1 (int MAX_FAST_UNIQUE_K)) ?st0 = st1"
    by (simp only: sm)
  have "UniqueK_run vset0 loaded0 out0 ?arr 1
          = Inr (vset_elems (u_vset (unique_k_loop 64 ?arr (min 1 (int MAX_FAST_UNIQUE_K)) ?st0))
                   (u_vset_size (unique_k_loop 64 ?arr (min 1 (int MAX_FAST_UNIQUE_K)) ?st0)))"
    by (rule UniqueK_run_done) (simp_all add: loop1 sz1 max_fast_unique_k_eq)
  then have "compute_unique_k vset0 loaded0 out0 ?arr 1 = Inr [1]"
    by (simp add: compute_unique_k_def loop1 max_fast_unique_k_eq sz1 vset_elems_def v0)
  then show ?thesis using cardarr by simp
qed

end
